theory Spec2Isabelle
  imports Main
begin

section \<open>Python values used by the pipeline\<close>

text \<open>
  The two PDF chat pages (\<^verbatim>\<open>pages/2_Book_Chat.py\<close>, the OpenAI variant, and
  \<^verbatim>\<open>pages/app2.py\<close>, the Anthropic variant) are embedded as HOL functions.
  Python \<^verbatim>\<open>str\<close> is \<^typ>\<open>string\<close>; characters are bytes, so only the ASCII part of
  Python's whitespace and case tables is represented. Exceptions are values of
  \<open>py_error\<close>.
\<close>

datatype py_error = TypeError | ValueError | IndexError | AttributeError

text \<open>\<^verbatim>\<open>str.isspace\<close> on ASCII: tab, LF, VT, FF, CR, the separators 0x1C-0x1F, space.\<close>

definition py_isspace :: "char \<Rightarrow> bool" where
  "py_isspace c \<longleftrightarrow> c \<in> {CHR 0x09, CHR 0x0A, CHR 0x0B, CHR 0x0C, CHR 0x0D,
                       CHR 0x1C, CHR 0x1D, CHR 0x1E, CHR 0x1F, CHR 0x20}"

text \<open>\<^verbatim>\<open>s.split()\<close>: the maximal runs of non-whitespace characters, in order.\<close>

fun py_split_ws :: "string \<Rightarrow> string list" where
  "py_split_ws [] = []"
| "py_split_ws [c] = (if py_isspace c then [] else [[c]])"
| "py_split_ws (c # d # cs) =
     (if py_isspace c then py_split_ws (d # cs)
      else if py_isspace d then [c] # py_split_ws cs
      else (case py_split_ws (d # cs) of
              [] \<Rightarrow> [[c]]
            | w # ws \<Rightarrow> (c # w) # ws))"

text \<open>
  \<^verbatim>\<open>s.split('\n\n')\<close>: cut at every occurrence of two line feeds, scanning from the
  left; the result always has at least one element.
\<close>

fun py_split_blank :: "string \<Rightarrow> string list" where
  "py_split_blank [] = [[]]"
| "py_split_blank [c] = [[c]]"
| "py_split_blank (c # d # cs) =
     (if c = CHR 0x0A \<and> d = CHR 0x0A then [] # py_split_blank cs
      else (case py_split_blank (d # cs) of
              [] \<Rightarrow> [[c]]
            | p # ps \<Rightarrow> (c # p) # ps))"

text \<open>\<^verbatim>\<open>'\n\n'.join(xs)\<close>.\<close>

fun py_join_blank :: "string list \<Rightarrow> string" where
  "py_join_blank [] = []"
| "py_join_blank [p] = p"
| "py_join_blank (p # q # ps) = p @ [CHR 0x0A, CHR 0x0A] @ py_join_blank (q # ps)"

text \<open>\<^verbatim>\<open>s.strip()\<close>.\<close>

definition py_strip :: "string \<Rightarrow> string" where
  "py_strip s = rev (dropWhile py_isspace (rev (dropWhile py_isspace s)))"

text \<open>\<^verbatim>\<open>s.lower()\<close> on ASCII letters.\<close>

definition lower_char :: "char \<Rightarrow> char" where
  "lower_char c =
     (if (65::nat) \<le> of_char c \<and> of_char c \<le> (90::nat) then char_of (of_char c + (32::nat)) else c)"

definition py_lower :: "string \<Rightarrow> string" where
  "py_lower s = map lower_char s"

text \<open>\<^verbatim>\<open>needle in hay\<close> for strings.\<close>

fun py_contains :: "string \<Rightarrow> string \<Rightarrow> bool" where
  "py_contains needle [] = (needle = [])"
| "py_contains needle (c # cs) =
     (take (length needle) (c # cs) = needle \<or> py_contains needle cs)"

text \<open>
  \<^verbatim>\<open>int(s)\<close> on the strings that reach it: the third group of the TOC pattern is
  \<^verbatim>\<open>\d+\<close>, a non-empty run of decimal digits. Any other string is a \<^verbatim>\<open>ValueError\<close> here.
\<close>

definition is_digit :: "char \<Rightarrow> bool" where
  "is_digit c \<longleftrightarrow> (48::nat) \<le> of_char c \<and> of_char c \<le> (57::nat)"

definition py_int :: "string \<Rightarrow> py_error + int" where
  "py_int s =
     (if s \<noteq> [] \<and> list_all is_digit s
      then Inr (foldl (\<lambda>acc c. 10 * acc + (int (of_char c) - 48)) 0 s)
      else Inl ValueError)"

text \<open>\<^verbatim>\<open>str(i)\<close> for a non-negative integer: its decimal digits.\<close>

definition digit_char :: "nat \<Rightarrow> char" where
  "digit_char d = ''0123456789'' ! d"

function py_str :: "nat \<Rightarrow> string" where
  "py_str n = (if n < 10 then [digit_char n] else py_str (n div 10) @ [digit_char (n mod 10)])"
  by pat_completeness auto
termination
  by (relation "measure id") auto

declare py_str.simps [simp del]

text \<open>
  \<^verbatim>\<open>xs[i]\<close> on a Python list: a negative index counts from the end, an index outside
  the list raises \<^verbatim>\<open>IndexError\<close>.
\<close>

definition py_getitem :: "'a list \<Rightarrow> int \<Rightarrow> py_error + 'a" where
  "py_getitem xs i =
     (if 0 \<le> i \<and> i < int (length xs) then Inr (xs ! nat i)
      else if i < 0 \<and> - int (length xs) \<le> i then Inr (xs ! nat (int (length xs) + i))
      else Inl IndexError)"

section \<open>The chunker\<close>

text \<open>
  \<^verbatim>\<open>split_text_into_chunks(text, chunk_size=1000)\<close>. The state of the loop over the
  paragraphs is \<open>(chunks, current_chunk, current_length)\<close>; \<open>chunk_step\<close> is the loop body.
\<close>

type_synonym chunker_state = "string list \<times> string list \<times> int"

definition chunk_step :: "int \<Rightarrow> string \<Rightarrow> chunker_state \<Rightarrow> chunker_state" where
  "chunk_step chunk_size para st =
     (case st of (chunks, current_chunk, current_length) \<Rightarrow>
        let para_length = int (length (py_split_ws para)) in
        if current_length + para_length > chunk_size
        then (chunks @ [py_join_blank current_chunk], [para], para_length)
        else (chunks, current_chunk @ [para], current_length + para_length))"

definition split_text_into_chunks :: "string \<Rightarrow> int \<Rightarrow> string list" where
  "split_text_into_chunks text chunk_size =
     (case fold (chunk_step chunk_size) (py_split_blank text) ([], [], 0) of
        (chunks, current_chunk, current_length) \<Rightarrow>
          if current_chunk \<noteq> [] then chunks @ [py_join_blank current_chunk] else chunks)"

text \<open>The number of words of a text, \<^verbatim>\<open>len(s.split())\<close>.\<close>

definition word_count :: "string \<Rightarrow> int" where
  "word_count s = int (length (py_split_ws s))"

text \<open>
  For the proofs: the same loop keeping every sealed chunk as its list of paragraphs,
  and the invariant it maintains.
\<close>

type_synonym group_state = "string list list \<times> string list \<times> int"

definition group_step :: "int \<Rightarrow> string \<Rightarrow> group_state \<Rightarrow> group_state" where
  "group_step n para st =
     (case st of (gs, cur, len) \<Rightarrow>
        if len + word_count para > n then (gs @ [cur], [para], word_count para)
        else (gs, cur @ [para], len + word_count para))"

definition wsum :: "string list \<Rightarrow> int" where
  "wsum g = sum_list (map word_count g)"

definition good :: "int \<Rightarrow> string list \<Rightarrow> bool" where
  "good n g \<longleftrightarrow> wsum g \<le> n \<or> length g = 1"

definition ginv :: "int \<Rightarrow> group_state \<Rightarrow> bool" where
  "ginv n st =
     (case st of (gs, cur, len) \<Rightarrow>
        len = wsum cur \<and> good n cur \<and> (\<forall>g \<in> set gs. good n g) \<and>
        (\<forall>p \<in> set (concat gs @ cur). n < word_count p \<longrightarrow> [p] \<in> set gs \<or> cur = [p]))"

section \<open>The PDF reader\<close>

text \<open>
  What the code reads of an opened PDF. An entry of \<^verbatim>\<open>pdf.outline\<close> is a destination
  (a dictionary, with or without a \<^verbatim>\<open>/Title\<close>, and the page number
  \<^verbatim>\<open>get_destination_page_number\<close> gives for it) or a nested list of entries.
  \<open>pages\<close> holds what \<^verbatim>\<open>extract_text()\<close> returns for each page: \<open>None\<close> is Python's
  \<^verbatim>\<open>None\<close>. PyPDF2 and pdfplumber open the same file, so \<^verbatim>\<open>len(pdf.pages)\<close> is the
  length of \<open>pages\<close> for both.
\<close>

datatype outline_item = Destination "string option" int | Nested "outline_item list"

record pdf =
  outline :: "outline_item list"
  pages :: "string option list"

record chapter_dict =
  title :: string
  start_page :: int
  end_page :: "int option"

section \<open>Chapter extraction\<close>

text \<open>The loop over \<^verbatim>\<open>pdf.outline\<close>: only dictionaries become chapters.\<close>

fun outline_loop :: "outline_item list \<Rightarrow> chapter_dict list \<Rightarrow> chapter_dict list" where
  "outline_loop [] chapters = chapters"
| "outline_loop (item # rest) chapters =
     (case item of
        Destination t page_num \<Rightarrow>
          outline_loop rest
            (chapters @ [\<lparr>title = (case t of None \<Rightarrow> ''Untitled'' | Some s \<Rightarrow> s),
                           start_page = page_num, end_page = None\<rparr>])
      | Nested _ \<Rightarrow> outline_loop rest chapters)"

text \<open>
  The loop \<^verbatim>\<open>for i in range(len(chapters))\<close> that fills \<^verbatim>\<open>end_page\<close> in place; the code
  has it twice, once per branch, with the same body.
\<close>

definition set_end_page :: "int \<Rightarrow> nat \<Rightarrow> chapter_dict list \<Rightarrow> chapter_dict list" where
  "set_end_page n_pages i chapters =
     (if int i < int (length chapters) - 1
      then chapters[i := (chapters ! i)\<lparr>end_page := Some (start_page (chapters ! (i + 1)))\<rparr>]
      else chapters[i := (chapters ! i)\<lparr>end_page := Some n_pages\<rparr>])"

definition calc_end_pages :: "int \<Rightarrow> chapter_dict list \<Rightarrow> chapter_dict list" where
  "calc_end_pages n_pages chapters = fold (set_end_page n_pages) [0..<length chapters] chapters"

text \<open>The scan of the first ten pages for a table of contents (OpenAI variant).\<close>

fun toc_scan :: "string option list \<Rightarrow> string \<Rightarrow> string" where
  "toc_scan [] toc_text = toc_text"
| "toc_scan (text # rest) toc_text =
     (case text of
        None \<Rightarrow> toc_scan rest toc_text
      | Some t \<Rightarrow>
          if t \<noteq> [] \<and> py_contains ''table of contents'' (py_lower t)
          then toc_scan rest (toc_text @ t @ [CHR 0x0A])
          else toc_scan rest toc_text)"

text \<open>
  The loop over the matches. \<open>re.findall\<close> with the TOC pattern is a parameter of the
  model (\<open>re_findall\<close> below): it gives, for a text, the three groups of every match.
\<close>

fun toc_loop :: "(string \<times> string \<times> string) list \<Rightarrow> chapter_dict list \<Rightarrow> py_error + chapter_dict list" where
  "toc_loop [] chapters = Inr chapters"
| "toc_loop (match # rest) chapters =
     (case py_int (snd (snd match)) of
        Inl e \<Rightarrow> Inl e
      | Inr n \<Rightarrow>
          toc_loop rest
            (chapters @ [\<lparr>title = py_strip (fst (snd match)), start_page = n - 1,
                           end_page = None\<rparr>]))"

text \<open>\<^verbatim>\<open>extract_chapters_from_pdf\<close> of \<^verbatim>\<open>pages/2_Book_Chat.py\<close>.\<close>

definition extract_chapters_from_pdf ::
    "(string \<Rightarrow> (string \<times> string \<times> string) list) \<Rightarrow> pdf \<Rightarrow> py_error + chapter_dict list" where
  "extract_chapters_from_pdf re_findall p =
     (let chapters = (if length (outline p) > 0 then outline_loop (outline p) [] else [])
      in if chapters \<noteq> [] then Inr (calc_end_pages (int (length (pages p))) chapters)
         else (case toc_loop (re_findall (toc_scan (take 10 (pages p)) [])) chapters of
                 Inl e \<Rightarrow> Inl e
               | Inr chapters' \<Rightarrow>
                   if chapters' \<noteq> []
                   then Inr (calc_end_pages (int (length (pages p))) chapters')
                   else Inr chapters'))"

text \<open>
  The Anthropic variant \<^verbatim>\<open>pages/app2.py\<close>: the scan calls \<^verbatim>\<open>text.lower()\<close> with no
  test of \<^verbatim>\<open>text\<close>, which raises \<^verbatim>\<open>AttributeError\<close> on \<^verbatim>\<open>None\<close>; the rest is the same.
\<close>

fun toc_scan_app2 :: "string option list \<Rightarrow> string \<Rightarrow> py_error + string" where
  "toc_scan_app2 [] toc_text = Inr toc_text"
| "toc_scan_app2 (text # rest) toc_text =
     (case text of
        None \<Rightarrow> Inl AttributeError
      | Some t \<Rightarrow>
          if py_contains ''table of contents'' (py_lower t)
          then toc_scan_app2 rest (toc_text @ t @ [CHR 0x0A])
          else toc_scan_app2 rest toc_text)"

definition extract_chapters_from_pdf_app2 ::
    "(string \<Rightarrow> (string \<times> string \<times> string) list) \<Rightarrow> pdf \<Rightarrow> py_error + chapter_dict list" where
  "extract_chapters_from_pdf_app2 re_findall p =
     (let chapters = (if length (outline p) > 0 then outline_loop (outline p) [] else [])
      in if chapters \<noteq> [] then Inr (calc_end_pages (int (length (pages p))) chapters)
         else (case toc_scan_app2 (take 10 (pages p)) [] of
                 Inl e \<Rightarrow> Inl e
               | Inr toc_text \<Rightarrow>
                   (case toc_loop (re_findall toc_text) chapters of
                      Inl e \<Rightarrow> Inl e
                    | Inr chapters' \<Rightarrow>
                        if chapters' \<noteq> []
                        then Inr (calc_end_pages (int (length (pages p))) chapters')
                        else Inr chapters')))"

section \<open>Page-range text extraction\<close>

text \<open>
  \<^verbatim>\<open>extract_chapter_text\<close>: the loop over \<^verbatim>\<open>range(start_page, end_page)\<close>. The OpenAI
  variant skips a page whose text is \<^verbatim>\<open>None\<close> or empty; the Anthropic variant
  concatenates whatever \<^verbatim>\<open>extract_text()\<close> returns, and \<^verbatim>\<open>None + "\n\n"\<close> raises
  \<^verbatim>\<open>TypeError\<close>.
\<close>

fun extract_loop :: "string option list \<Rightarrow> int list \<Rightarrow> string \<Rightarrow> py_error + string" where
  "extract_loop pgs [] text = Inr text"
| "extract_loop pgs (page_num # rest) text =
     (if page_num < int (length pgs)
      then (case py_getitem pgs page_num of
              Inl e \<Rightarrow> Inl e
            | Inr page_text \<Rightarrow>
                (case page_text of
                   None \<Rightarrow> extract_loop pgs rest text
                 | Some t \<Rightarrow>
                     if t \<noteq> [] then extract_loop pgs rest (text @ t @ [CHR 0x0A, CHR 0x0A])
                     else extract_loop pgs rest text))
      else extract_loop pgs rest text)"

definition extract_chapter_text :: "pdf \<Rightarrow> int \<Rightarrow> int \<Rightarrow> py_error + string" where
  "extract_chapter_text p start_pg end_pg = extract_loop (pages p) [start_pg..end_pg - 1] []"

fun extract_loop_app2 :: "string option list \<Rightarrow> int list \<Rightarrow> string \<Rightarrow> py_error + string" where
  "extract_loop_app2 pgs [] text = Inr text"
| "extract_loop_app2 pgs (page_num # rest) text =
     (if page_num < int (length pgs)
      then (case py_getitem pgs page_num of
              Inl e \<Rightarrow> Inl e
            | Inr page_text \<Rightarrow>
                (case page_text of
                   None \<Rightarrow> Inl TypeError
                 | Some t \<Rightarrow> extract_loop_app2 pgs rest (text @ t @ [CHR 0x0A, CHR 0x0A])))
      else extract_loop_app2 pgs rest text)"

definition extract_chapter_text_app2 :: "pdf \<Rightarrow> int \<Rightarrow> int \<Rightarrow> py_error + string" where
  "extract_chapter_text_app2 p start_pg end_pg =
     extract_loop_app2 (pages p) [start_pg..end_pg - 1] []"

section \<open>The indexer and the upload handler\<close>

text \<open>
  The arguments of one \<^verbatim>\<open>chroma_collection.add(documents=, metadatas=, ids=)\<close> call.
  The vector store itself is outside the code; the model records the calls made.
\<close>

record metadata =
  meta_chapter :: string
  meta_start_page :: int
  meta_end_page :: int

record add_call =
  documents :: "string list"
  metadatas :: "metadata list"
  ids :: "string list"

text \<open>The body of the indexing loop for the chunks of one chapter.\<close>

definition chunk_ids :: "string \<Rightarrow> nat \<Rightarrow> string list" where
  "chunk_ids chapter_title n = map (\<lambda>i. chapter_title @ ''_chunk_'' @ py_str i) [0..<n]"

definition make_add_call :: "string \<Rightarrow> int \<Rightarrow> int \<Rightarrow> string list \<Rightarrow> add_call" where
  "make_add_call chapter_title start_pg end_pg chunks =
     \<lparr>documents = chunks,
      metadatas = map (\<lambda>_. \<lparr>meta_chapter = chapter_title, meta_start_page = start_pg + 1,
                              meta_end_page = end_pg\<rparr>) chunks,
      ids = chunk_ids chapter_title (length chunks)\<rparr>"

text \<open>
  One pass of the loop: text extraction, chunking with the default budget of 1000
  words, and the call. An \<^verbatim>\<open>end_page\<close> still \<^verbatim>\<open>None\<close> would make \<^verbatim>\<open>range\<close> raise
  \<^verbatim>\<open>TypeError\<close>.
\<close>

definition index_chapter :: "pdf \<Rightarrow> chapter_dict \<Rightarrow> py_error + add_call" where
  "index_chapter p ch =
     (case end_page ch of
        None \<Rightarrow> Inl TypeError
      | Some e \<Rightarrow>
          (case extract_chapter_text p (start_page ch) e of
             Inl err \<Rightarrow> Inl err
           | Inr chapter_text \<Rightarrow>
               Inr (make_add_call (title ch) (start_page ch) e
                      (split_text_into_chunks chapter_text 1000))))"

text \<open>
  The loop over the chapters: the calls made so far, and the exception that stopped
  the loop if one was raised.
\<close>

fun index_loop :: "pdf \<Rightarrow> chapter_dict list \<Rightarrow> add_call list \<Rightarrow> add_call list \<times> py_error option" where
  "index_loop p [] calls = (calls, None)"
| "index_loop p (ch # rest) calls =
     (case index_chapter p ch of
        Inl e \<Rightarrow> (calls, Some e)
      | Inr call \<Rightarrow> index_loop p rest (calls @ [call]))"

text \<open>
  The sidebar upload handler of \<^verbatim>\<open>pages/2_Book_Chat.py\<close>, as the effects it has: the
  collection it gets or creates (named after the MD5 digest of the uploaded bytes, here
  \<open>file_hash\<close>), the \<^verbatim>\<open>add\<close> calls, the warning shown and the exception raised. The
  widgets drawn after indexing are left out.
\<close>

record upload_result =
  collection_name :: "string option"
  add_calls :: "add_call list"
  warning :: "string option"
  raised :: "py_error option"

definition upload_handler ::
    "(string \<Rightarrow> (string \<times> string \<times> string) list) \<Rightarrow> pdf \<Rightarrow> string \<Rightarrow> upload_result" where
  "upload_handler re_findall p file_hash =
     (case extract_chapters_from_pdf re_findall p of
        Inl e \<Rightarrow> \<lparr>collection_name = None, add_calls = [], warning = None, raised = Some e\<rparr>
      | Inr chapters \<Rightarrow>
          if chapters \<noteq> []
          then (case index_loop p chapters [] of
                  (calls, err) \<Rightarrow>
                    \<lparr>collection_name = Some (''textbook_'' @ file_hash), add_calls = calls,
                     warning = None, raised = err\<rparr>)
          else \<lparr>collection_name = None, add_calls = [],
                warning = Some ''No chapters detected in PDF. Using full document.'',
                raised = None\<rparr>)"

section \<open>Example documents\<close>

text \<open>
  The documents at which the theorems below are evaluated. \<open>two_chapter_outline\<close> is the
  scenario of the specification: an outline with two entries, twenty pages.
\<close>

definition two_chapter_outline :: pdf where
  "two_chapter_outline =
     \<lparr>outline = [Destination (Some ''Intro'') 0, Destination (Some ''Methods'') 10],
      pages = replicate 20 (Some ''x'')\<rparr>"

definition toc_page :: string where
  "toc_page = ''Table of Contents\<newline>Chapter 1 Intro 1\<newline>Chapter 2 Methods 11''"

definition toc_document :: pdf where
  "toc_document = \<lparr>outline = [], pages = Some toc_page # replicate 19 (Some ''x'')\<rparr>"

text \<open>What \<^verbatim>\<open>re.findall\<close> with the TOC pattern returns on the text of \<open>toc_page\<close>.\<close>

definition toc_findall :: "string \<Rightarrow> (string \<times> string \<times> string) list" where
  "toc_findall t =
     (if t = toc_page @ [CHR 0x0A]
      then [(''Chapter 1'', ''Intro'', ''1''), (''Chapter 2'', ''Methods'', ''11'')]
      else [])"

text \<open>Two outline entries that point at the same page.\<close>

definition same_page_outline :: pdf where
  "same_page_outline =
     \<lparr>outline = [Destination (Some ''A'') 1, Destination (Some ''B'') 1],
      pages = [Some ''a'', Some ''b'']\<rparr>"

text \<open>Two outline entries with no title.\<close>

definition untitled_outline :: pdf where
  "untitled_outline =
     \<lparr>outline = [Destination None 0, Destination None 1],
      pages = [Some ''a'', Some ''b'']\<rparr>"

text \<open>No outline and no table of contents: three pages of text.\<close>

definition plain_document :: pdf where
  "plain_document = \<lparr>outline = [], pages = [Some ''one'', Some ''two'', Some ''three'']\<rparr>"

text \<open>
  One page without extractable text, as \<^verbatim>\<open>extract_text()\<close> reports it: the empty
  string, or \<^verbatim>\<open>None\<close>.
\<close>

definition blank_page_document :: pdf where
  "blank_page_document = \<lparr>outline = [], pages = [Some []]\<rparr>"

definition none_page_document :: pdf where
  "none_page_document = \<lparr>outline = [], pages = [None]\<rparr>"

text \<open>A pattern matcher that finds no match (a text with no TOC line).\<close>

definition no_matches :: "string \<Rightarrow> (string \<times> string \<times> string) list" where
  "no_matches t = []"

section \<open>Properties of the chunker\<close>

lemma py_split_blank_nonempty: "py_split_blank s \<noteq> []"
  by (induction s rule: py_split_blank.induct) (auto split: list.splits)

lemma join_cons_char: "py_join_blank ((c # p) # ps) = c # py_join_blank (p # ps)"
  by (cases ps) auto

lemma join_nil_cons: "ps \<noteq> [] \<Longrightarrow> py_join_blank ([] # ps) = CHR 0x0A # CHR 0x0A # py_join_blank ps"
  by (cases ps) auto

lemma join_split: "py_join_blank (py_split_blank s) = s"
proof (induction s rule: py_split_blank.induct)
  case (3 c d cs)
  show ?case
  proof (cases "c = CHR 0x0A \<and> d = CHR 0x0A")
    case True
    with 3 show ?thesis by (simp add: join_nil_cons py_split_blank_nonempty)
  next
    case False
    obtain p ps where ps: "py_split_blank (d # cs) = p # ps"
      using py_split_blank_nonempty [of "d # cs"] by (cases "py_split_blank (d # cs)") auto
    from False ps have "py_split_blank (c # d # cs) = (c # p) # ps" by auto
    moreover from 3(2) False ps have "py_join_blank (p # ps) = d # cs" by simp
    ultimately show ?thesis by (simp add: join_cons_char del: py_join_blank.simps)
  qed
qed simp_all

lemma split_ws_nonspace: "\<not> py_isspace d \<Longrightarrow> py_split_ws (d # cs) \<noteq> []"
  by (induction cs arbitrary: d) (auto split: list.splits)

lemma split_ws_app_space:
  "py_isspace s \<Longrightarrow> py_split_ws (a @ s # b) = py_split_ws a @ py_split_ws b"
proof (induction a rule: py_split_ws.induct)
  case 1
  then show ?case by (cases b) auto
next
  case (2 c)
  then show ?case by (cases b) auto
next
  case (3 c d cs)
  then show ?case
    using split_ws_nonspace [of d cs]
    by (auto split: list.splits)
qed


lemma split_ws_drop_space: "py_isspace s \<Longrightarrow> py_split_ws (s # b) = py_split_ws b"
  using split_ws_app_space [of s "[]" b] by simp

lemma isspace_nl: "py_isspace (CHR 0x0A)"
  by (simp add: py_isspace_def)

lemma split_ws_join: "py_split_ws (py_join_blank g) = concat (map py_split_ws g)"
proof (induction g rule: py_join_blank.induct)
  case (3 p q ps)
  have "py_split_ws (p @ CHR 0x0A # CHR 0x0A # py_join_blank (q # ps))
      = py_split_ws p @ py_split_ws (py_join_blank (q # ps))"
    by (simp add: split_ws_app_space split_ws_drop_space isspace_nl)
  with 3 show ?case by simp
qed simp_all

lemma fold_chunk_group:
  "fold (chunk_step n) ps (map py_join_blank gs, cur, len) =
     (case fold (group_step n) ps (gs, cur, len) of
        (gs', cur', len') \<Rightarrow> (map py_join_blank gs', cur', len'))"
proof (induction ps arbitrary: gs cur len)
  case (Cons p ps)
  show ?case
  proof (cases "len + word_count p > n")
    case True
    then have "chunk_step n p (map py_join_blank gs, cur, len)
        = (map py_join_blank (gs @ [cur]), [p], word_count p)"
      by (simp add: chunk_step_def word_count_def)
    moreover from True have "group_step n p (gs, cur, len) = (gs @ [cur], [p], word_count p)"
      by (simp add: group_step_def)
    ultimately show ?thesis using Cons [of "gs @ [cur]" "[p]" "word_count p"] by simp
  next
    case False
    then have "chunk_step n p (map py_join_blank gs, cur, len)
        = (map py_join_blank gs, cur @ [p], len + word_count p)"
      by (simp add: chunk_step_def word_count_def)
    moreover from False have "group_step n p (gs, cur, len) = (gs, cur @ [p], len + word_count p)"
      by (simp add: group_step_def)
    ultimately show ?thesis using Cons [of gs "cur @ [p]" "len + word_count p"] by simp
  qed
qed simp

lemma word_count_nonneg: "0 \<le> word_count p" by (simp add: word_count_def)
lemma wsum_nonneg: "0 \<le> wsum g" by (induction g) (auto simp: wsum_def word_count_def)

lemma ginv_step: assumes "ginv n (gs, cur, len)" shows "ginv n (group_step n p (gs, cur, len))"
proof (cases "len + word_count p > n")
  case True
  then have st: "group_step n p (gs, cur, len) = (gs @ [cur], [p], word_count p)"
    by (simp add: group_step_def)
  from assms show ?thesis unfolding st ginv_def
    by (auto simp: good_def wsum_def)
next
  case False
  then have st: "group_step n p (gs, cur, len) = (gs, cur @ [p], len + word_count p)"
    by (simp add: group_step_def)
  from assms have len: "len = wsum cur" by (simp add: ginv_def)
  have a: "wsum (cur @ [p]) = len + word_count p" by (simp add: wsum_def len)
  have b: "\<not> n < word_count p" using False wsum_nonneg [of cur] len by simp
  have c: "cur \<noteq> [q]" if "n < word_count q" for q
    using that False len word_count_nonneg [of p] by (auto simp: wsum_def)
  from assms False show ?thesis unfolding st ginv_def
    using a b c by (auto simp: good_def)
qed

lemma ginv_fold: "ginv n st \<Longrightarrow> ginv n (fold (group_step n) ps st)"
proof (induction ps arbitrary: st)
  case (Cons p ps)
  obtain gs cur len where "st = (gs, cur, len)" by (cases st) auto
  with Cons show ?case using ginv_step [of n gs cur len p] by simp
qed simp

lemma concat_step: "group_step n p (gs, cur, len) = (gs', cur', len') \<Longrightarrow>
   concat gs' @ cur' = concat gs @ cur @ [p]"
  by (auto simp: group_step_def split: if_splits)

lemma concat_fold: "fold (group_step n) ps (gs, cur, len) = (gs', cur', len') \<Longrightarrow>
   concat gs' @ cur' = concat gs @ cur @ ps"
proof (induction ps arbitrary: gs cur len)
  case (Cons p ps)
  obtain gs1 cur1 len1 where s: "group_step n p (gs, cur, len) = (gs1, cur1, len1)"
    by (cases "group_step n p (gs, cur, len)") auto
  from Cons.prems s have "fold (group_step n) ps (gs1, cur1, len1) = (gs', cur', len')" by simp
  from Cons.IH [OF this] concat_step [OF s] show ?case by simp
qed simp


lemma first_para_head:
  assumes "py_split_blank (d # cs) = (e # p) # ps" shows "e = d"
proof -
  have "py_join_blank ((e # p) # ps) = d # cs" using join_split [of "d # cs"] assms by simp
  then show ?thesis by (simp add: join_cons_char del: py_join_blank.simps)
qed

lemma split_para_single: "p \<in> set (py_split_blank s) \<Longrightarrow> py_split_blank p = [p]"
proof (induction s arbitrary: p rule: py_split_blank.induct)
  case (3 c d cs)
  show ?case
  proof (cases "c = CHR 0x0A \<and> d = CHR 0x0A")
    case True
    with 3 show ?thesis by auto
  next
    case False
    obtain q qs where qs: "py_split_blank (d # cs) = q # qs"
      using py_split_blank_nonempty [of "d # cs"] by (cases "py_split_blank (d # cs)") auto
    with False have all: "py_split_blank (c # d # cs) = (c # q) # qs" by auto
    from 3(2) False qs have IH: "\<And>r. r \<in> set (q # qs) \<Longrightarrow> py_split_blank r = [r]" by simp
    from "3.prems" all have "p = c # q \<or> p \<in> set qs" by auto
    then show ?thesis
    proof
      assume p: "p = c # q"
      have q1: "py_split_blank q = [q]" using IH by simp
      show ?thesis
      proof (cases q)
        case Nil
        with p show ?thesis by simp
      next
        case (Cons e q')
        with qs have "e = d" using first_para_head by blast
        with Cons q1 False p show ?thesis by auto
      qed
    next
      assume "p \<in> set qs"
      then show ?thesis using IH by simp
    qed
  qed
qed auto

lemma chunks_as_groups:
  assumes "0 \<le> n"
  obtains gs where "split_text_into_chunks text n = map py_join_blank gs"
    and "concat gs = py_split_blank text"
    and "\<forall>g \<in> set gs. good n g"
    and "\<forall>p \<in> set (py_split_blank text). n < word_count p \<longrightarrow> [p] \<in> set gs"
proof -
  obtain gs' cur' len' where f: "fold (group_step n) (py_split_blank text) ([], [], 0) = (gs', cur', len')"
    by (cases "fold (group_step n) (py_split_blank text) ([], [], 0)") auto
  have c: "fold (chunk_step n) (py_split_blank text) ([], [], 0) = (map py_join_blank gs', cur', len')"
    using fold_chunk_group [of n "py_split_blank text" "[]" "[]" 0] f by simp
  have cc: "concat gs' @ cur' = py_split_blank text" using concat_fold [OF f] by simp
  have "ginv n ([], [], 0)" using assms by (simp add: ginv_def good_def wsum_def)
  from ginv_fold [OF this, of "py_split_blank text"] f have inv: "ginv n (gs', cur', len')" by simp
  from inv have "\<forall>p \<in> set (concat gs' @ cur'). n < word_count p \<longrightarrow> [p] \<in> set gs' \<or> cur' = [p]"
    by (simp add: ginv_def)
  then have big: "\<forall>p \<in> set (py_split_blank text). n < word_count p \<longrightarrow> [p] \<in> set gs' \<or> cur' = [p]"
    unfolding cc .
  show thesis
  proof (cases "cur' = []")
    case True
    show ?thesis
    proof (rule that [of gs'])
      show "split_text_into_chunks text n = map py_join_blank gs'"
        using c True by (simp add: split_text_into_chunks_def)
      show "concat gs' = py_split_blank text" using cc True by simp
      show "\<forall>g \<in> set gs'. good n g" using inv by (simp add: ginv_def)
      show "\<forall>p \<in> set (py_split_blank text). n < word_count p \<longrightarrow> [p] \<in> set gs'"
        using big True by simp
    qed
  next
    case False
    show ?thesis
    proof (rule that [of "gs' @ [cur']"])
      show "split_text_into_chunks text n = map py_join_blank (gs' @ [cur'])"
        using c False by (simp add: split_text_into_chunks_def)
      show "concat (gs' @ [cur']) = py_split_blank text" using cc by simp
      show "\<forall>g \<in> set (gs' @ [cur']). good n g" using inv by (auto simp: ginv_def)
      show "\<forall>p \<in> set (py_split_blank text). n < word_count p \<longrightarrow> [p] \<in> set (gs' @ [cur'])"
        using big by auto
    qed
  qed
qed

lemma word_count_join: "word_count (py_join_blank g) = wsum g"
  by (induction g) (simp_all add: word_count_def wsum_def split_ws_join)

text \<open>
  Claim C3. For a positive word budget, a chunk that holds more than one paragraph has
  at most \<open>chunk_size\<close> words; a chunk with more words than the budget is one paragraph
  of the input, unsplit; and every paragraph of the input that alone exceeds the budget
  is emitted as a chunk of its own.
\<close>

theorem chunk_budget:
  assumes "0 < chunk_size"
  shows "(\<forall>c \<in> set (split_text_into_chunks text chunk_size).
            (1 < length (py_split_blank c) \<longrightarrow> word_count c \<le> chunk_size) \<and>
            (chunk_size < word_count c \<longrightarrow> c \<in> set (py_split_blank text))) \<and>
         (\<forall>p \<in> set (py_split_blank text).
            chunk_size < word_count p \<longrightarrow> p \<in> set (split_text_into_chunks text chunk_size))"
proof -
  from assms have "0 \<le> chunk_size" by simp
  then obtain gs where ch: "split_text_into_chunks text chunk_size = map py_join_blank gs"
    and cc: "concat gs = py_split_blank text"
    and gd: "\<forall>g \<in> set gs. good chunk_size g"
    and big: "\<forall>p \<in> set (py_split_blank text). chunk_size < word_count p \<longrightarrow> [p] \<in> set gs"
    by (rule chunks_as_groups)
  have over: "c \<in> set (py_split_blank text)"
    if "c \<in> set (split_text_into_chunks text chunk_size)" "chunk_size < word_count c" for c
  proof -
    from that(1) ch obtain g where g: "g \<in> set gs" "c = py_join_blank g" by auto
    with that(2) gd have "length g = 1" by (auto simp: good_def word_count_join)
    then obtain p where "g = [p]" by (cases g) auto
    with g have "c = p" "[p] \<in> set gs" by simp_all
    then have "c \<in> set (concat gs)" by (auto intro: bexI [of _ "[p]"])
    with cc show ?thesis by simp
  qed
  have multi: "word_count c \<le> chunk_size"
    if "c \<in> set (split_text_into_chunks text chunk_size)" "1 < length (py_split_blank c)" for c
  proof (rule ccontr)
    assume "\<not> word_count c \<le> chunk_size"
    then have "c \<in> set (py_split_blank text)" using over that(1) by simp
    then have "py_split_blank c = [c]" by (rule split_para_single)
    with that(2) show False by simp
  qed
  have emitted: "p \<in> set (split_text_into_chunks text chunk_size)"
    if "p \<in> set (py_split_blank text)" "chunk_size < word_count p" for p
  proof -
    from big that have "[p] \<in> set gs" by simp
    then have "py_join_blank [p] \<in> py_join_blank ` set gs" by (rule imageI)
    then show ?thesis by (simp add: ch)
  qed
  from over multi emitted show ?thesis by blast
qed

theorem chunk_budget_witness:
  "(0::int) < 2 \<and> ''a b c'' \<in> set (py_split_blank ''a b c\<newline>\<newline>d'') \<and>
   2 < word_count ''a b c'' \<and>
   ''a b c'' \<in> set (split_text_into_chunks ''a b c\<newline>\<newline>d'' 2)"
proof -
  have h: "(0::int) < 2" by simp
  have m: "''a b c'' \<in> set (py_split_blank ''a b c\<newline>\<newline>d'')" by simp
  have w: "2 < word_count ''a b c''" by (simp add: word_count_def py_isspace_def)
  from chunk_budget [OF h, of "''a b c\<newline>\<newline>d''"] m w
  have "''a b c'' \<in> set (split_text_into_chunks ''a b c\<newline>\<newline>d'' 2)" by blast
  with h m w show ?thesis by blast
qed

text \<open>
  Claim C4. Joining the chunks with blank lines gives a text with the same words, in
  the same order, as the input: nothing is lost, duplicated or reordered. This holds for
  every budget.
\<close>

theorem chunk_round_trip:
  "py_split_ws (py_join_blank (split_text_into_chunks text chunk_size)) = py_split_ws text"
proof -
  have groups: "py_split_ws (py_join_blank (map py_join_blank gs)) = py_split_ws (py_join_blank (concat gs))" for gs
    by (induction gs) (simp_all add: split_ws_join)
  obtain gs' cur' len' where f: "fold (group_step chunk_size) (py_split_blank text) ([], [], 0) = (gs', cur', len')"
    by (cases "fold (group_step chunk_size) (py_split_blank text) ([], [], 0)") auto
  have c: "fold (chunk_step chunk_size) (py_split_blank text) ([], [], 0) = (map py_join_blank gs', cur', len')"
    using fold_chunk_group [of chunk_size "py_split_blank text" "[]" "[]" 0] f by simp
  have cc: "concat gs' @ cur' = py_split_blank text" using concat_fold [OF f] by simp
  have "split_text_into_chunks text chunk_size = map py_join_blank (gs' @ (if cur' = [] then [] else [cur']))"
    using c by (simp add: split_text_into_chunks_def)
  then have "py_split_ws (py_join_blank (split_text_into_chunks text chunk_size))
      = py_split_ws (py_join_blank (concat (gs' @ (if cur' = [] then [] else [cur']))))"
    by (simp only: groups)
  also have "concat (gs' @ (if cur' = [] then [] else [cur'])) = py_split_blank text"
    using cc by auto
  finally show ?thesis by (simp add: join_split)
qed

section \<open>Empty chunks\<close>

lemma fold_chunks_grow:
  "\<exists>more cur' len'. fold (chunk_step n) ps (chunks, cur, len) = (chunks @ more, cur', len')"
proof (induction ps arbitrary: chunks cur len)
  case Nil
  show ?case by simp
next
  case (Cons p ps)
  show ?case
  proof (cases "len + int (length (py_split_ws p)) > n")
    case True
    then have s: "chunk_step n p (chunks, cur, len)
        = (chunks @ [py_join_blank cur], [p], int (length (py_split_ws p)))"
      by (simp add: chunk_step_def)
    from Cons [of "chunks @ [py_join_blank cur]" "[p]" "int (length (py_split_ws p))"]
    show ?thesis unfolding fold_Cons comp_def s by auto
  next
    case False
    then have s: "chunk_step n p (chunks, cur, len)
        = (chunks, cur @ [p], len + int (length (py_split_ws p)))"
      by (simp add: chunk_step_def)
    from Cons [of chunks "cur @ [p]" "len + int (length (py_split_ws p))"]
    show ?thesis unfolding fold_Cons comp_def s by auto
  qed
qed

lemma documents_make_add_call: "documents (make_add_call t s e chunks) = chunks"
  by (simp add: make_add_call_def)

lemma py_str_0: "py_str 0 = ''0''"
  by (simp add: py_str.simps digit_char_def)

text \<open>
  Claim C10. If the first paragraph of the text alone exceeds the budget, the first
  chunk returned is the empty string: the paragraph seals the accumulation while it is
  still empty. The chunks go to the indexer as they are, so its first document is empty.
\<close>

theorem first_chunk_empty:
  assumes "py_split_blank text = p # ps" and "chunk_size < word_count p"
  shows "\<exists>rest. split_text_into_chunks text chunk_size = [] # rest \<and>
           documents (make_add_call t s e (split_text_into_chunks text chunk_size)) = [] # rest"
proof -
  from assms(2) have s: "chunk_step chunk_size p ([], [], 0) = ([[]], [p], word_count p)"
    by (simp add: chunk_step_def word_count_def)
  obtain more cur' len' where
    f: "fold (chunk_step chunk_size) ps ([[]], [p], word_count p) = ([[]] @ more, cur', len')"
    using fold_chunks_grow [of chunk_size ps "[[]]" "[p]" "word_count p"] by blast
  have "fold (chunk_step chunk_size) (py_split_blank text) ([], [], 0) = ([] # more, cur', len')"
    using assms(1) s f by simp
  then have "split_text_into_chunks text chunk_size
      = [] # (if cur' \<noteq> [] then more @ [py_join_blank cur'] else more)"
    by (simp add: split_text_into_chunks_def)
  then show ?thesis by (simp add: documents_make_add_call)
qed

theorem first_chunk_empty_witness:
  "py_split_blank ''a b c'' = [''a b c''] \<and> 2 < word_count ''a b c'' \<and>
   split_text_into_chunks ''a b c'' 2 = ['''', ''a b c''] \<and>
   documents (make_add_call ''Intro'' 0 3 (split_text_into_chunks ''a b c'' 2)) = ['''', ''a b c'']"
proof -
  have a: "py_split_blank ''a b c'' = [''a b c'']" by simp
  have b: "2 < word_count ''a b c''" by (simp add: word_count_def py_isspace_def)
  from first_chunk_empty [OF a b, of "''Intro''" 0 3] obtain rest where
    r: "split_text_into_chunks ''a b c'' 2 = [] # rest"
       "documents (make_add_call ''Intro'' 0 3 (split_text_into_chunks ''a b c'' 2)) = [] # rest"
    by blast
  have c: "split_text_into_chunks ''a b c'' 2 = ['''', ''a b c'']"
    by (simp add: split_text_into_chunks_def chunk_step_def py_isspace_def)
  with r a b show ?thesis by simp
qed

text \<open>
  Claim C5, as the code has it. Chunking the empty string with a non-negative budget
  yields one chunk, the empty string, not zero chunks; for a chapter whose extracted
  text is empty the indexing loop therefore adds one empty document, with one metadata
  entry and the id \<open><title>_chunk_0\<close>.
\<close>

theorem empty_text_one_chunk:
  assumes "0 \<le> chunk_size"
  shows "split_text_into_chunks [] chunk_size = [[]] \<and>
         (end_page ch = Some e \<and> extract_chapter_text p (start_page ch) e = Inr [] \<longrightarrow>
            index_chapter p ch =
              Inr \<lparr>documents = [[]],
                   metadatas = [\<lparr>meta_chapter = title ch, meta_start_page = start_page ch + 1,
                                 meta_end_page = e\<rparr>],
                   ids = [title ch @ ''_chunk_0'']\<rparr>)"
proof -
  from assms have a: "split_text_into_chunks [] chunk_size = [[]]"
    by (simp add: split_text_into_chunks_def chunk_step_def)
  have b: "split_text_into_chunks [] 1000 = [[]]"
    by (simp add: split_text_into_chunks_def chunk_step_def)
  show ?thesis
    using a by (auto simp: index_chapter_def b make_add_call_def chunk_ids_def py_str_0)
qed

theorem empty_text_one_chunk_witness:
  "(0::int) \<le> 1000 \<and> split_text_into_chunks [] 1000 = [[]] \<and>
   index_chapter \<lparr>outline = [Destination (Some ''Intro'') 0], pages = [Some []]\<rparr>
       \<lparr>title = ''Intro'', start_page = 0, end_page = Some 1\<rparr> =
     Inr \<lparr>documents = [[]],
          metadatas = [\<lparr>meta_chapter = ''Intro'', meta_start_page = 1, meta_end_page = 1\<rparr>],
          ids = [''Intro_chunk_0'']\<rparr>"
proof -
  have h: "(0::int) \<le> 1000" by simp
  have e: "extract_chapter_text \<lparr>outline = [Destination (Some ''Intro'') 0], pages = [Some []]\<rparr>
             (start_page \<lparr>title = ''Intro'', start_page = 0, end_page = Some 1\<rparr>) 1 = Inr []"
    by (simp add: extract_chapter_text_def py_getitem_def upto.simps)
  from empty_text_one_chunk [OF h,
      of "\<lparr>title = ''Intro'', start_page = 0, end_page = Some 1\<rparr>" 1
         "\<lparr>outline = [Destination (Some ''Intro'') 0], pages = [Some []]\<rparr>"] e
  show ?thesis by simp
qed

text \<open>
  The claim as stated fails: a chapter of one page with no extractable text is indexed
  as one empty document, and no message is produced.
\<close>

theorem empty_text_counterexample:
  "split_text_into_chunks [] 1000 \<noteq> [] \<and>
   add_calls (upload_handler (\<lambda>_. [])
       \<lparr>outline = [Destination (Some ''Intro'') 0], pages = [Some []]\<rparr> ''h'') =
     [\<lparr>documents = [[]],
       metadatas = [\<lparr>meta_chapter = ''Intro'', meta_start_page = 1, meta_end_page = 1\<rparr>],
       ids = [''Intro_chunk_0'']\<rparr>] \<and>
   warning (upload_handler (\<lambda>_. [])
       \<lparr>outline = [Destination (Some ''Intro'') 0], pages = [Some []]\<rparr> ''h'') = None"
proof -
  have a: "split_text_into_chunks [] 1000 = [[]]"
    by (simp add: split_text_into_chunks_def chunk_step_def)
  have c: "extract_chapters_from_pdf (\<lambda>_. [])
      \<lparr>outline = [Destination (Some ''Intro'') 0], pages = [Some []]\<rparr>
      = Inr [\<lparr>title = ''Intro'', start_page = 0, end_page = Some 1\<rparr>]"
    by (simp add: extract_chapters_from_pdf_def calc_end_pages_def set_end_page_def)
  have e: "extract_chapter_text \<lparr>outline = [Destination (Some ''Intro'') 0], pages = [Some []]\<rparr>
             0 1 = Inr []"
    by (simp add: extract_chapter_text_def py_getitem_def upto.simps)
  show ?thesis
    by (simp add: upload_handler_def c index_chapter_def e a make_add_call_def chunk_ids_def py_str_0)
qed

section \<open>Properties of chapter extraction\<close>

lemma set_end_page_length: "length (set_end_page n i chs) = length chs"
  by (simp add: set_end_page_def)

lemma set_end_page_nth:
  assumes "j < length chs"
  shows "title (set_end_page n i chs ! j) = title (chs ! j)"
    and "start_page (set_end_page n i chs ! j) = start_page (chs ! j)"
    and "end_page (set_end_page n i chs ! j) =
           (if j = i then Some (if Suc i < length chs then start_page (chs ! Suc i) else n)
            else end_page (chs ! j))"
  using assms by (auto simp: set_end_page_def nth_list_update)

lemma fold_set_end_page:
  "k \<le> length chs \<Longrightarrow>
   length (fold (set_end_page n) [0..<k] chs) = length chs \<and>
   (\<forall>j < length chs.
      title (fold (set_end_page n) [0..<k] chs ! j) = title (chs ! j) \<and>
      start_page (fold (set_end_page n) [0..<k] chs ! j) = start_page (chs ! j) \<and>
      end_page (fold (set_end_page n) [0..<k] chs ! j) =
        (if j < k then Some (if Suc j < length chs then start_page (chs ! Suc j) else n)
         else end_page (chs ! j)))"
proof (induction k)
  case 0
  show ?case by simp
next
  case (Suc k)
  let ?r = "fold (set_end_page n) [0..<k] chs"
  from Suc have len: "length ?r = length chs" by simp
  from Suc have IH: "\<And>j. j < length chs \<Longrightarrow>
      title (?r ! j) = title (chs ! j) \<and> start_page (?r ! j) = start_page (chs ! j) \<and>
      end_page (?r ! j) =
        (if j < k then Some (if Suc j < length chs then start_page (chs ! Suc j) else n)
         else end_page (chs ! j))" by simp
  have step: "fold (set_end_page n) [0..<Suc k] chs = set_end_page n k ?r" by simp
  show ?case
  proof (intro conjI allI impI)
    show "length (fold (set_end_page n) [0..<Suc k] chs) = length chs"
      by (simp only: step set_end_page_length len)
  next
    fix j assume j: "j < length chs"
    then have j': "j < length ?r" by (simp add: len)
    show "title (fold (set_end_page n) [0..<Suc k] chs ! j) = title (chs ! j)"
      by (simp only: step set_end_page_nth(1) [OF j'] IH [OF j])
    show "start_page (fold (set_end_page n) [0..<Suc k] chs ! j) = start_page (chs ! j)"
      by (simp only: step set_end_page_nth(2) [OF j'] IH [OF j])
    show "end_page (fold (set_end_page n) [0..<Suc k] chs ! j) =
        (if j < Suc k then Some (if Suc j < length chs then start_page (chs ! Suc j) else n)
         else end_page (chs ! j))"
    proof (cases "j = k")
      case True
      with j' have k': "k < length ?r" by simp
      have e: "end_page (set_end_page n k ?r ! k) =
          Some (if Suc k < length chs then start_page (?r ! Suc k) else n)"
        using set_end_page_nth(3) [OF k', of n k] by (simp add: len)
      have "Suc k < length chs \<Longrightarrow> start_page (?r ! Suc k) = start_page (chs ! Suc k)"
        using IH [of "Suc k"] by simp
      with e have "end_page (set_end_page n k ?r ! k) =
          Some (if Suc k < length chs then start_page (chs ! Suc k) else n)"
        by (cases "Suc k < length chs") simp_all
      with True show ?thesis unfolding step by simp
    next
      case False
      have e: "end_page (set_end_page n k ?r ! j) = end_page (?r ! j)"
        using set_end_page_nth(3) [OF j', of n k] False by simp
      from False have "j < Suc k \<longleftrightarrow> j < k" by auto
      with e IH [OF j] show ?thesis unfolding step by simp
    qed
  qed
qed

lemma calc_end_pages_length: "length (calc_end_pages n chs) = length chs"
  using fold_set_end_page [of "length chs" chs n] by (simp add: calc_end_pages_def)

lemma calc_end_pages_nth:
  assumes "j < length chs"
  shows "title (calc_end_pages n chs ! j) = title (chs ! j)"
    and "start_page (calc_end_pages n chs ! j) = start_page (chs ! j)"
    and "end_page (calc_end_pages n chs ! j) =
           Some (if Suc j < length chs then start_page (chs ! Suc j) else n)"
  using fold_set_end_page [of "length chs" chs n] assms by (simp_all add: calc_end_pages_def)


lemma extract_chapters_cases:
  assumes "extract_chapters_from_pdf re_findall p = Inr chapters" and "chapters \<noteq> []"
  obtains drafts where "drafts \<noteq> []"
    and "chapters = calc_end_pages (int (length (pages p))) drafts"
proof (cases "(if length (outline p) > 0 then outline_loop (outline p) [] else []) = []")
  case False
  with assms(1) have "chapters = calc_end_pages (int (length (pages p)))
      (if length (outline p) > 0 then outline_loop (outline p) [] else [])"
    by (simp add: extract_chapters_from_pdf_def Let_def)
  with False that show ?thesis by blast
next
  case True
  show ?thesis
  proof (cases "toc_loop (re_findall (toc_scan (take 10 (pages p)) [])) []")
    case (Inl e)
    with True assms(1) show ?thesis by (simp add: extract_chapters_from_pdf_def Let_def)
  next
    case (Inr drafts)
    with True assms have "drafts \<noteq> []"
      by (auto simp: extract_chapters_from_pdf_def Let_def split: if_splits)
    moreover from this Inr True assms(1)
    have "chapters = calc_end_pages (int (length (pages p))) drafts"
      by (simp add: extract_chapters_from_pdf_def Let_def)
    ultimately show ?thesis using that by blast
  qed
qed

lemma chain_of_calc:
  assumes "drafts \<noteq> []"
  shows "(\<forall>i. Suc i < length (calc_end_pages n drafts) \<longrightarrow>
            end_page (calc_end_pages n drafts ! i) =
              Some (start_page (calc_end_pages n drafts ! Suc i))) \<and>
         end_page (last (calc_end_pages n drafts)) = Some n"
proof (intro conjI allI impI)
  fix i assume "Suc i < length (calc_end_pages n drafts)"
  then have i: "Suc i < length drafts" by (simp add: calc_end_pages_length)
  then have "i < length drafts" by simp
  from calc_end_pages_nth(3) [OF this, of n] calc_end_pages_nth(2) [OF i, of n] i
  show "end_page (calc_end_pages n drafts ! i) = Some (start_page (calc_end_pages n drafts ! Suc i))"
    by simp
next
  from assms have ne: "calc_end_pages n drafts \<noteq> []"
    using calc_end_pages_length [of n drafts] by auto
  from assms have l: "length drafts - 1 < length drafts" by (cases drafts) auto
  have "last (calc_end_pages n drafts) = calc_end_pages n drafts ! (length drafts - 1)"
    using last_conv_nth [OF ne] by (simp add: calc_end_pages_length)
  with calc_end_pages_nth(3) [OF l, of n] assms
  show "end_page (last (calc_end_pages n drafts)) = Some n" by simp
qed

lemma spans_of_chain:
  fixes chs :: "chapter_dict list"
  assumes ne: "chs \<noteq> []"
    and chain: "\<forall>i. Suc i < length chs \<longrightarrow> end_page (chs ! i) = Some (start_page (chs ! Suc i))"
    and lst: "end_page (last chs) = Some n"
  shows "(\<forall>c \<in> set chs. \<exists>e. end_page c = Some e \<and> start_page c < e) \<longleftrightarrow>
         (sorted_wrt (<) (map start_page chs) \<and> start_page (last chs) < n)"
proof
  assume a: "\<forall>c \<in> set chs. \<exists>e. end_page c = Some e \<and> start_page c < e"
  have "start_page (chs ! i) < start_page (chs ! Suc i)" if "Suc i < length chs" for i
  proof -
    from that have "chs ! i \<in> set chs" by simp
    with a obtain e where "end_page (chs ! i) = Some e" "start_page (chs ! i) < e" by blast
    with chain that show ?thesis by simp
  qed
  then have "sorted_wrt (<) (map start_page chs)"
    by (simp add: sorted_wrt_iff_nth_Suc_transp)
  moreover from ne have "last chs \<in> set chs" by simp
  with a lst have "start_page (last chs) < n" by auto
  ultimately show "sorted_wrt (<) (map start_page chs) \<and> start_page (last chs) < n" by simp
next
  assume b: "sorted_wrt (<) (map start_page chs) \<and> start_page (last chs) < n"
  then have inc: "\<And>i. Suc i < length chs \<Longrightarrow> start_page (chs ! i) < start_page (chs ! Suc i)"
    by (simp add: sorted_wrt_iff_nth_Suc_transp)
  show "\<forall>c \<in> set chs. \<exists>e. end_page c = Some e \<and> start_page c < e"
  proof
    fix c assume "c \<in> set chs"
    then obtain i where i: "i < length chs" "c = chs ! i" by (auto simp: in_set_conv_nth)
    show "\<exists>e. end_page c = Some e \<and> start_page c < e"
    proof (cases "Suc i < length chs")
      case True
      with chain inc i show ?thesis by simp
    next
      case False
      with i have "i = length chs - 1" by simp
      with ne i have "c = last chs" by (simp add: last_conv_nth)
      with lst b show ?thesis by simp
    qed
  qed
qed

lemma toc_document_chapters:
  "extract_chapters_from_pdf toc_findall toc_document =
   Inr [\<lparr>title = ''Intro'', start_page = 0, end_page = Some 10\<rparr>,
        \<lparr>title = ''Methods'', start_page = 10, end_page = Some 20\<rparr>]"
  by code_simp

lemma two_chapter_outline_chapters:
  "extract_chapters_from_pdf no_matches two_chapter_outline =
   Inr [\<lparr>title = ''Intro'', start_page = 0, end_page = Some 10\<rparr>,
        \<lparr>title = ''Methods'', start_page = 10, end_page = Some 20\<rparr>]"
  by code_simp

lemma same_page_outline_chapters:
  "extract_chapters_from_pdf no_matches same_page_outline =
   Inr [\<lparr>title = ''A'', start_page = 1, end_page = Some 1\<rparr>,
        \<lparr>title = ''B'', start_page = 1, end_page = Some 2\<rparr>]"
  by code_simp

text \<open>
  Claim C1. In every non-empty chapter list that \<open>extract_chapters_from_pdf\<close> returns,
  from the outline or from the table of contents, the end page of each chapter but the
  last is the start page of the next one, and the end page of the last chapter is the
  number of pages of the document.
\<close>

theorem end_pages_chain:
  assumes "extract_chapters_from_pdf re_findall p = Inr chapters" and "chapters \<noteq> []"
  shows "(\<forall>i. Suc i < length chapters \<longrightarrow>
            end_page (chapters ! i) = Some (start_page (chapters ! Suc i))) \<and>
         end_page (last chapters) = Some (int (length (pages p)))"
proof -
  from assms obtain drafts where "drafts \<noteq> []"
    and "chapters = calc_end_pages (int (length (pages p))) drafts"
    by (rule extract_chapters_cases)
  then show ?thesis using chain_of_calc [of drafts "int (length (pages p))"] by simp
qed

theorem end_pages_chain_witness:
  "extract_chapters_from_pdf toc_findall toc_document =
     Inr [\<lparr>title = ''Intro'', start_page = 0, end_page = Some 10\<rparr>,
          \<lparr>title = ''Methods'', start_page = 10, end_page = Some 20\<rparr>] \<and>
   end_page \<lparr>title = ''Intro'', start_page = 0, end_page = Some 10\<rparr> =
     Some (start_page \<lparr>title = ''Methods'', start_page = 10, end_page = Some 20\<rparr>) \<and>
   end_page \<lparr>title = ''Methods'', start_page = 10, end_page = Some 20\<rparr> =
     Some (int (length (pages toc_document)))"
proof -
  have n: "[\<lparr>title = ''Intro'', start_page = 0, end_page = Some 10\<rparr>,
            \<lparr>title = ''Methods'', start_page = 10, end_page = Some 20\<rparr>] \<noteq> []" by simp
  from end_pages_chain [OF toc_document_chapters n]
  show ?thesis using toc_document_chapters by simp
qed

text \<open>
  Claim C6, as the code has it. The code neither checks nor drops a chapter: in a
  non-empty result every chapter has \<open>start_page < end_page\<close> exactly when the start pages
  are strictly increasing and the last one is below the number of pages.
\<close>

theorem page_span_iff_increasing:
  assumes "extract_chapters_from_pdf re_findall p = Inr chapters" and "chapters \<noteq> []"
  shows "(\<forall>c \<in> set chapters. \<exists>e. end_page c = Some e \<and> start_page c < e) \<longleftrightarrow>
         (sorted_wrt (<) (map start_page chapters) \<and>
          start_page (last chapters) < int (length (pages p)))"
proof -
  from assms obtain drafts where "drafts \<noteq> []"
    and "chapters = calc_end_pages (int (length (pages p))) drafts"
    by (rule extract_chapters_cases)
  then have "(\<forall>i. Suc i < length chapters \<longrightarrow>
            end_page (chapters ! i) = Some (start_page (chapters ! Suc i))) \<and>
         end_page (last chapters) = Some (int (length (pages p)))"
    using chain_of_calc [of drafts "int (length (pages p))"] by simp
  with assms(2) show ?thesis using spans_of_chain [of chapters "int (length (pages p))"] by blast
qed

theorem page_span_iff_increasing_witness:
  "extract_chapters_from_pdf no_matches two_chapter_outline =
     Inr [\<lparr>title = ''Intro'', start_page = 0, end_page = Some 10\<rparr>,
          \<lparr>title = ''Methods'', start_page = 10, end_page = Some 20\<rparr>] \<and>
   list_all (\<lambda>c. \<exists>e. end_page c = Some e \<and> start_page c < e)
     [\<lparr>title = ''Intro'', start_page = 0, end_page = Some 10\<rparr>,
      \<lparr>title = ''Methods'', start_page = 10, end_page = Some 20\<rparr>] \<and>
   (10::int) < int (length (pages two_chapter_outline))"
proof -
  have n: "[\<lparr>title = ''Intro'', start_page = 0, end_page = Some 10\<rparr>,
            \<lparr>title = ''Methods'', start_page = 10, end_page = Some 20\<rparr>] \<noteq> []" by simp
  have l: "(10::int) < int (length (pages two_chapter_outline))"
    by (simp add: two_chapter_outline_def)
  from page_span_iff_increasing [OF two_chapter_outline_chapters n] l
  have "\<forall>c \<in> set [\<lparr>title = ''Intro'', start_page = 0, end_page = Some 10\<rparr>,
      \<lparr>title = ''Methods'', start_page = 10, end_page = Some 20\<rparr>].
      \<exists>e. end_page c = Some e \<and> start_page c < e" by simp
  then show ?thesis using two_chapter_outline_chapters l by (simp add: list_all_iff)
qed

text \<open>
  The claim as stated fails: two outline entries on the same page give a chapter with
  \<open>start_page = end_page\<close>, and the indexing loop receives it like any other.
\<close>

theorem zero_span_counterexample:
  "extract_chapters_from_pdf no_matches same_page_outline =
     Inr [\<lparr>title = ''A'', start_page = 1, end_page = Some 1\<rparr>,
          \<lparr>title = ''B'', start_page = 1, end_page = Some 2\<rparr>] \<and>
   \<not> start_page \<lparr>title = ''A'', start_page = 1, end_page = Some 1\<rparr> < 1 \<and>
   map ids (add_calls (upload_handler no_matches same_page_outline ''h'')) =
     [[''A_chunk_0''], [''B_chunk_0'']]"
  by code_simp

section \<open>Chunk identifiers\<close>

lemma digit_char_in: "d < 10 \<Longrightarrow> digit_char d \<in> set ''0123456789''"
  unfolding digit_char_def by (rule nth_mem) simp

lemma digit_char_inj: "a < 10 \<Longrightarrow> b < 10 \<Longrightarrow> digit_char a = digit_char b \<Longrightarrow> a = b"
proof -
  assume a: "a < 10" and b: "b < 10" and e: "digit_char a = digit_char b"
  have d: "distinct ''0123456789''" by simp
  have "a < length ''0123456789''" "b < length ''0123456789''" using a b by simp_all
  with d e show "a = b" unfolding digit_char_def by (simp only: nth_eq_iff_index_eq)
qed

lemma py_str_nonempty: "py_str n \<noteq> []"
  by (subst py_str.simps) simp

lemma py_str_no_underscore: "CHR ''_'' \<notin> set (py_str n)"
proof (induction n rule: py_str.induct)
  case (1 n)
  have dc: "digit_char d \<noteq> CHR ''_''" if "d < 10" for d
    using digit_char_in [OF that] by auto
  show ?case
  proof (cases "n < 10")
    case True
    then show ?thesis using dc [of n] by (subst py_str.simps) simp
  next
    case False
    with 1 dc [of "n mod 10"] show ?thesis by (subst py_str.simps) simp
  qed
qed

lemma py_str_inj: "py_str n = py_str m \<Longrightarrow> n = m"
proof (induction n arbitrary: m rule: py_str.induct)
  case (1 n)
  show ?case
  proof (cases "n < 10")
    case True
    then have n: "py_str n = [digit_char n]" by (subst py_str.simps) simp
    show ?thesis
    proof (cases "m < 10")
      case True
      then have "py_str m = [digit_char m]" by (subst py_str.simps) simp
      with n "1.prems" have "digit_char n = digit_char m" by simp
      with \<open>n < 10\<close> True show ?thesis by (rule digit_char_inj)
    next
      case False
      then have "py_str m = py_str (m div 10) @ [digit_char (m mod 10)]"
        by (subst py_str.simps) simp
      with n "1.prems" py_str_nonempty [of "m div 10"] show ?thesis by simp
    qed
  next
    case False
    then have n: "py_str n = py_str (n div 10) @ [digit_char (n mod 10)]"
      by (subst py_str.simps) simp
    show ?thesis
    proof (cases "m < 10")
      case True
      then have "py_str m = [digit_char m]" by (subst py_str.simps) simp
      with n "1.prems" py_str_nonempty [of "n div 10"] show ?thesis by simp
    next
      case m: False
      then have "py_str m = py_str (m div 10) @ [digit_char (m mod 10)]"
        by (subst py_str.simps) simp
      with n "1.prems" have e: "py_str (n div 10) = py_str (m div 10)"
        and d: "digit_char (n mod 10) = digit_char (m mod 10)" by simp_all
      from "1.IH" [OF False e] have q: "n div 10 = m div 10" .
      have "n mod 10 = m mod 10" by (rule digit_char_inj [OF _ _ d]) simp_all
      with q show ?thesis by (metis div_mult_mod_eq)
    qed
  qed
qed

lemma takeWhile_upto_sep: "u \<notin> set zs \<Longrightarrow> takeWhile (\<lambda>x. x \<noteq> u) (zs @ u # rest) = zs"
  by (induction zs) auto

lemma append_sep_inj:
  assumes "xs @ u # ys = xs' @ u # ys'" and "u \<notin> set ys" and "u \<notin> set ys'"
  shows "xs = xs' \<and> ys = ys'"
proof -
  from assms(1) have "rev (xs @ u # ys) = rev (xs' @ u # ys')" by simp
  then have r: "rev ys @ u # rev xs = rev ys' @ u # rev xs'" by simp
  have "takeWhile (\<lambda>x. x \<noteq> u) (rev ys @ u # rev xs) = rev ys"
    using assms(2) by (intro takeWhile_upto_sep) simp
  moreover have "takeWhile (\<lambda>x. x \<noteq> u) (rev ys' @ u # rev xs') = rev ys'"
    using assms(3) by (intro takeWhile_upto_sep) simp
  ultimately have "rev ys = rev ys'" using r by simp
  then have "ys = ys'" by simp
  with assms(1) show ?thesis by simp
qed

lemma chunk_id_inj:
  assumes "t @ ''_chunk_'' @ py_str i = t' @ ''_chunk_'' @ py_str j"
  shows "t = t' \<and> i = j"
proof -
  from assms have "(t @ ''_chunk'') @ CHR ''_'' # py_str i = (t' @ ''_chunk'') @ CHR ''_'' # py_str j"
    by simp
  from append_sep_inj [OF this py_str_no_underscore py_str_no_underscore]
  have "t @ ''_chunk'' = t' @ ''_chunk''" and "py_str i = py_str j" by simp_all
  then show ?thesis using py_str_inj by simp
qed


lemma chunk_ids_distinct: "distinct (chunk_ids t k)"
  unfolding chunk_ids_def
  by (simp add: distinct_map inj_on_def) (blast dest: py_str_inj)

lemma chunk_ids_form: "x \<in> set (chunk_ids t k) \<Longrightarrow> \<exists>i. x = t @ ''_chunk_'' @ py_str i"
  by (auto simp: chunk_ids_def)

lemma index_chapter_ids:
  "index_chapter p ch = Inr call \<Longrightarrow> \<exists>k. ids call = chunk_ids (title ch) k"
  by (auto simp: index_chapter_def make_add_call_def split: option.splits sum.splits)

lemma index_loop_distinct:
  assumes "distinct (map title chs)"
    and "title ` set chs \<inter> T = {}"
    and "distinct (concat (map ids calls))"
    and "\<forall>x \<in> set (concat (map ids calls)). \<exists>t \<in> T. \<exists>i. x = t @ ''_chunk_'' @ py_str i"
  shows "distinct (concat (map ids (fst (index_loop p chs calls))))"
  using assms
proof (induction chs arbitrary: calls T)
  case Nil
  then show ?case by simp
next
  case (Cons ch rest)
  show ?case
  proof (cases "index_chapter p ch")
    case (Inl e)
    with Cons.prems(3) show ?thesis by simp
  next
    case (Inr call)
    then obtain k where k: "ids call = chunk_ids (title ch) k"
      using index_chapter_ids by blast
    have fresh: "x \<notin> set (concat (map ids calls))" if "x \<in> set (ids call)" for x
    proof
      assume old: "x \<in> set (concat (map ids calls))"
      from that k obtain i where "x = title ch @ ''_chunk_'' @ py_str i"
        using chunk_ids_form by metis
      moreover from old Cons.prems(4) obtain t j where "t \<in> T" "x = t @ ''_chunk_'' @ py_str j"
        by blast
      ultimately have "title ch = t" using chunk_id_inj by metis
      with \<open>t \<in> T\<close> Cons.prems(2) show False by auto
    qed
    have d: "distinct (concat (map ids (calls @ [call])))"
      using Cons.prems(3) fresh k chunk_ids_distinct [of "title ch" k] by auto
    have f: "\<forall>x \<in> set (concat (map ids (calls @ [call]))).
        \<exists>t \<in> insert (title ch) T. \<exists>i. x = t @ ''_chunk_'' @ py_str i"
    proof
      fix x assume "x \<in> set (concat (map ids (calls @ [call])))"
      then have "x \<in> set (concat (map ids calls)) \<or> x \<in> set (chunk_ids (title ch) k)"
        using k by auto
      then show "\<exists>t \<in> insert (title ch) T. \<exists>i. x = t @ ''_chunk_'' @ py_str i"
      proof
        assume "x \<in> set (concat (map ids calls))"
        with Cons.prems(4) show ?thesis by blast
      next
        assume "x \<in> set (chunk_ids (title ch) k)"
        then show ?thesis using chunk_ids_form by blast
      qed
    qed
    from Cons.prems(1) have d1: "distinct (map title rest)" by simp
    from Cons.prems(1,2) have d2: "title ` set rest \<inter> insert (title ch) T = {}" by auto
    from Cons.IH [OF d1 d2 d f] Inr show ?thesis by simp
  qed
qed

text \<open>
  Claim C7, as the code has it. An identifier is the chapter title, \<open>_chunk_\<close> and the
  position of the chunk in its chapter. When the titles of the chapters are pairwise
  distinct, so are all identifiers of one indexing pass.
\<close>

theorem ids_distinct_for_distinct_titles:
  assumes "extract_chapters_from_pdf re_findall p = Inr chapters"
    and "distinct (map title chapters)"
  shows "distinct (concat (map ids (add_calls (upload_handler re_findall p file_hash))))"
proof (cases "chapters = []")
  case True
  with assms(1) show ?thesis by (simp add: upload_handler_def)
next
  case False
  have "distinct (concat (map ids (fst (index_loop p chapters []))))"
    by (rule index_loop_distinct [where T = "{}"]) (use assms(2) in simp_all)
  moreover obtain calls err where "index_loop p chapters [] = (calls, err)"
    by (cases "index_loop p chapters []") auto
  ultimately show ?thesis using False assms(1)
    by (simp add: upload_handler_def)
qed

theorem ids_distinct_for_distinct_titles_witness:
  "extract_chapters_from_pdf no_matches two_chapter_outline =
     Inr [\<lparr>title = ''Intro'', start_page = 0, end_page = Some 10\<rparr>,
          \<lparr>title = ''Methods'', start_page = 10, end_page = Some 20\<rparr>] \<and>
   distinct (map title [\<lparr>title = ''Intro'', start_page = 0, end_page = Some 10\<rparr>,
                        \<lparr>title = ''Methods'', start_page = 10, end_page = Some 20\<rparr>]) \<and>
   map ids (add_calls (upload_handler no_matches two_chapter_outline ''h'')) =
     [[''Intro_chunk_0''], [''Methods_chunk_0'']] \<and>
   distinct (concat (map ids (add_calls (upload_handler no_matches two_chapter_outline ''h''))))"
proof -
  have d: "distinct (map title [\<lparr>title = ''Intro'', start_page = 0, end_page = Some 10\<rparr>,
                        \<lparr>title = ''Methods'', start_page = 10, end_page = Some 20\<rparr>])" by simp
  have e: "map ids (add_calls (upload_handler no_matches two_chapter_outline ''h'')) =
     [[''Intro_chunk_0''], [''Methods_chunk_0'']]" by code_simp
  from ids_distinct_for_distinct_titles [OF two_chapter_outline_chapters d, of "''h''"]
  show ?thesis using two_chapter_outline_chapters d e by simp
qed

text \<open>
  The claim as stated fails: two outline entries without a title both become
  \<open>Untitled\<close>, and the first chunk of each gets the identifier \<open>Untitled_chunk_0\<close>.
\<close>

theorem duplicate_title_counterexample:
  "extract_chapters_from_pdf no_matches untitled_outline =
     Inr [\<lparr>title = ''Untitled'', start_page = 0, end_page = Some 1\<rparr>,
          \<lparr>title = ''Untitled'', start_page = 1, end_page = Some 2\<rparr>] \<and>
   map ids (add_calls (upload_handler no_matches untitled_outline ''h'')) =
     [[''Untitled_chunk_0''], [''Untitled_chunk_0'']] \<and>
   \<not> distinct (concat (map ids (add_calls (upload_handler no_matches untitled_outline ''h''))))"
  by code_simp

section \<open>A document without chapters\<close>

text \<open>
  Claim C2. The claim asks that a document for which neither the outline nor the table
  of contents yields a chapter be indexed as one chapter over all its pages. The upload
  handler shows the warning \<open>No chapters detected in PDF. Using full document.\<close> and
  indexes nothing: no collection is created and no \<^verbatim>\<open>add\<close> call is made.
\<close>

theorem no_chapters_nothing_indexed:
  "extract_chapters_from_pdf no_matches plain_document = Inr [] \<and>
   upload_handler no_matches plain_document ''h'' =
     \<lparr>collection_name = None, add_calls = [],
      warning = Some ''No chapters detected in PDF. Using full document.'', raised = None\<rparr>"
  by code_simp

section \<open>The two variants\<close>

text \<open>
  The variants agree where the guards of the OpenAI variant make no difference: on
  page ranges of a document all of whose pages have non-empty text, and on documents
  whose first ten pages all return a string.
\<close>

lemma py_getitem_in_set: "py_getitem xs i = Inr x \<Longrightarrow> x \<in> set xs"
  by (auto simp: py_getitem_def split: if_splits)

lemma extract_loop_agree:
  assumes "\<forall>t \<in> set pgs. \<exists>s. t = Some s \<and> s \<noteq> []"
  shows "extract_loop_app2 pgs ns acc = extract_loop pgs ns acc"
proof (induction ns arbitrary: acc)
  case Nil
  show ?case by simp
next
  case (Cons page_num rest)
  show ?case
  proof (cases "py_getitem pgs page_num")
    case (Inl e)
    with Cons show ?thesis by simp
  next
    case (Inr page_text)
    then have "page_text \<in> set pgs" by (rule py_getitem_in_set)
    with assms obtain s where "page_text = Some s" "s \<noteq> []" by blast
    with Inr Cons show ?thesis by simp
  qed
qed

lemma extract_chapter_text_agree:
  "\<forall>t \<in> set (pages p). \<exists>s. t = Some s \<and> s \<noteq> [] \<Longrightarrow>
   extract_chapter_text_app2 p a b = extract_chapter_text p a b"
  by (simp add: extract_chapter_text_def extract_chapter_text_app2_def extract_loop_agree)

lemma toc_scan_agree:
  "None \<notin> set pgs \<Longrightarrow> toc_scan_app2 pgs toc_text = Inr (toc_scan pgs toc_text)"
proof (induction pgs arbitrary: toc_text)
  case Nil
  show ?case by simp
next
  case (Cons pg rest)
  then obtain t where t: "pg = Some t" by (cases pg) auto
  have "\<not> py_contains ''table of contents'' (py_lower [])" by (simp add: py_lower_def)
  with Cons t show ?case by (cases "t = []") auto
qed

lemma extract_chapters_agree:
  "None \<notin> set (take 10 (pages p)) \<Longrightarrow>
   extract_chapters_from_pdf_app2 re_findall p = extract_chapters_from_pdf re_findall p"
  by (simp add: extract_chapters_from_pdf_def extract_chapters_from_pdf_app2_def toc_scan_agree Let_def)

text \<open>
  Claim C9. The claim asks that the two variants return equal results, also on pages
  without extractable text. On a page whose text is empty the OpenAI variant skips the
  page and the Anthropic variant appends a blank line; on a page whose text is
  \<^verbatim>\<open>None\<close> the Anthropic variant raises, in \<open>extract_chapter_text\<close> and in the TOC scan
  of \<open>extract_chapters_from_pdf\<close>.
\<close>

theorem variants_differ_on_blank_page:
  "extract_chapter_text blank_page_document 0 1 = Inr [] \<and>
   extract_chapter_text_app2 blank_page_document 0 1 = Inr [CHR 0x0A, CHR 0x0A] \<and>
   extract_chapter_text none_page_document 0 1 = Inr [] \<and>
   extract_chapter_text_app2 none_page_document 0 1 = Inl TypeError \<and>
   extract_chapters_from_pdf no_matches none_page_document = Inr [] \<and>
   extract_chapters_from_pdf_app2 no_matches none_page_document = Inl AttributeError"
  by code_simp

end
